theory Spec2Isabelle
  imports Complex_Main "HOL-Library.Multiset"
begin

section \<open>Data model\<close>

text \<open>
  The exceptions that \<^verbatim>\<open>src/evaluation.py\<close> can raise on well-typed arguments:
  the \<^verbatim>\<open>assert\<close> of \<^verbatim>\<open>model_evaluate\<close>, the \<^verbatim>\<open>ValueError\<close> of
  \<^verbatim>\<open>np.argpartition\<close> (kth out of bounds), of \<^verbatim>\<open>np.ravel_multi_index\<close>
  (invalid entry in coordinates array) and of \<^verbatim>\<open>np.apply_along_axis\<close> (an iteration
  dimension is 0), the \<^verbatim>\<open>IndexError\<close> of integer-array indexing, and the
  \<^verbatim>\<open>ZeroDivisionError\<close> of Python's \<^verbatim>\<open>int / int\<close>.
\<close>

datatype error = AssertionError | ValueError | IndexError | ZeroDivisionError

text \<open>
  A score is a real number or one of the two infinities: the suppressor writes
  \<^verbatim>\<open>-np.inf\<close>, and \<^verbatim>\<open>topidx\<close> negates the selected scores, which turns it into
  \<^verbatim>\<open>+inf\<close>. Finite floats are idealised as reals (only comparison and negation are
  applied to scores, and both are exact on floats); NaN is not a value of this type.
\<close>

datatype score = NegInf | Fin real | PosInf

fun score_le :: "score \<Rightarrow> score \<Rightarrow> bool" where
  "score_le NegInf _ = True"
| "score_le (Fin x) NegInf = False"
| "score_le (Fin x) (Fin y) = (x \<le> y)"
| "score_le (Fin x) PosInf = True"
| "score_le PosInf PosInf = True"
| "score_le PosInf _ = False"

instantiation score :: linorder
begin

definition less_eq_score :: "score \<Rightarrow> score \<Rightarrow> bool" where
  "less_eq_score x y = score_le x y"

definition less_score :: "score \<Rightarrow> score \<Rightarrow> bool" where
  "less_score x y = (score_le x y \<and> \<not> score_le y x)"

instance
proof
  fix x y z :: score
  show "(x < y) = (x \<le> y \<and> \<not> y \<le> x)"
    by (simp add: less_eq_score_def less_score_def)
  show "x \<le> x"
    by (cases x) (simp_all add: less_eq_score_def)
  show "x \<le> y \<Longrightarrow> y \<le> z \<Longrightarrow> x \<le> z"
    by (cases x; cases y; cases z) (simp_all add: less_eq_score_def)
  show "x \<le> y \<Longrightarrow> y \<le> x \<Longrightarrow> x = y"
    by (cases x; cases y) (simp_all add: less_eq_score_def)
  show "x \<le> y \<or> y \<le> x"
    by (cases x; cases y) (auto simp add: less_eq_score_def)
qed

end

text \<open>Unary minus on scores, the \<^verbatim>\<open>-a[parted]\<close> of \<^verbatim>\<open>topidx\<close>.\<close>

fun score_neg :: "score \<Rightarrow> score" where
  "score_neg NegInf = PosInf"
| "score_neg (Fin x) = Fin (- x)"
| "score_neg PosInf = NegInf"

text \<open>
  The score matrix is a list of rows. A numpy matrix of shape \<open>(U, I)\<close> is a list of
  \<open>U\<close> rows of length \<open>I\<close>; a matrix with no rows is \<open>[]\<close> whatever its column
  count, and every function below behaves the same on it for every column count.
\<close>

type_synonym matrix = "score list list"

definition is_matrix :: "'a list list \<Rightarrow> nat \<Rightarrow> bool" where
  "is_matrix m I = list_all (\<lambda>row. length row = I) m"

definition shape :: "'a list list \<Rightarrow> nat \<times> nat" where
  "shape m = (length m, (case m of [] \<Rightarrow> 0 | row # _ \<Rightarrow> length row))"

section \<open>Python and numpy primitives\<close>

text \<open>Python's \<^verbatim>\<open>xs[s:]\<close> and \<^verbatim>\<open>xs[:e]\<close> for an integer bound: a negative bound
  counts from the end, and a bound outside the list is clamped.\<close>

definition py_slice_from :: "int \<Rightarrow> 'a list \<Rightarrow> 'a list" where
  "py_slice_from s xs =
     (let n = int (length xs);
          s' = (if s < 0 then max (s + n) 0 else min s n)
      in drop (nat s') xs)"

definition py_slice_to :: "int \<Rightarrow> 'a list \<Rightarrow> 'a list" where
  "py_slice_to e xs =
     (let n = int (length xs);
          e' = (if e < 0 then max (e + n) 0 else min e n)
      in take (nat e') xs)"

text \<open>Indexing an array with an integer array, \<^verbatim>\<open>a[idx]\<close>: every index must be in
  range (the indices here are never negative).\<close>

definition np_take :: "'a list \<Rightarrow> nat list \<Rightarrow> error + 'a list" where
  "np_take a idx =
     (if list_all (\<lambda>i. i < length a) idx then Inr (map (\<lambda>i. a ! i) idx)
      else Inl IndexError)"

text \<open>
  \<^verbatim>\<open>np.argpartition\<close> and \<^verbatim>\<open>np.argsort\<close> are library routines whose result is fixed
  by their documentation only up to the order of equal or unconstrained elements (the
  default \<^verbatim>\<open>kind\<close> of both is not stable). They are parameters of the model: a
  selection kernel \<open>sel a k\<close> and a sorting kernel \<open>srt b\<close>, constrained by the
  documented contracts below.

  \<^verbatim>\<open>np.argpartition(a, kth)\<close> first normalises a negative \<open>kth\<close> by adding the length
  and raises \<^verbatim>\<open>ValueError\<close> when the array is not empty and the normalised \<open>kth\<close> is
  out of bounds; then it returns the kernel's permutation.
\<close>

type_synonym selector = "score list \<Rightarrow> nat \<Rightarrow> nat list"
type_synonym sorter = "score list \<Rightarrow> nat list"

definition norm_kth :: "nat \<Rightarrow> int \<Rightarrow> int" where
  "norm_kth n kth = (if kth < 0 then kth + int n else kth)"

definition np_argpartition :: "selector \<Rightarrow> score list \<Rightarrow> int \<Rightarrow> error + nat list" where
  "np_argpartition sel a kth =
     (let k = norm_kth (length a) kth
      in if a \<noteq> [] \<and> (k < 0 \<or> int (length a) \<le> k) then Inl ValueError
         else Inr (sel a (nat k)))"

text \<open>The contract of the selection kernel, for the calls that \<open>np_argpartition\<close>
  makes (an empty array, or \<open>k\<close> in bounds): a permutation of all positions with the
  element at position \<open>k\<close> in its sorted place, nothing larger before it and nothing
  smaller after it.\<close>

definition argpartition_spec :: "selector \<Rightarrow> bool" where
  "argpartition_spec sel =
     (\<forall>a k. a = [] \<or> k < length a \<longrightarrow>
        mset (sel a k) = mset [0..<length a] \<and>
        (\<forall>i < length a. \<forall>j < length a.
           i \<le> k \<and> k \<le> j \<longrightarrow> a ! (sel a k ! i) \<le> a ! (sel a k ! j)))"

text \<open>The contract of the sorting kernel: a permutation of all positions that reads
  the array in ascending order.\<close>

definition argsort_spec :: "sorter \<Rightarrow> bool" where
  "argsort_spec srt =
     (\<forall>b. mset (srt b) = mset [0..<length b] \<and> sorted (map (\<lambda>i. b ! i) (srt b)))"

section \<open>The selector: \<^verbatim>\<open>topidx\<close> and \<^verbatim>\<open>topn_recommendations\<close>\<close>

text \<open>
  \<^verbatim>\<open>
  def topidx(a, topn):
      parted = np.argpartition(a, -topn)[-topn:]
      return parted[np.argsort(-a[parted])]
  \<close>
\<close>

definition topidx :: "selector \<Rightarrow> sorter \<Rightarrow> score list \<Rightarrow> int \<Rightarrow> error + nat list" where
  "topidx sel srt a topn =
     (case np_argpartition sel a (- topn) of
        Inl e \<Rightarrow> Inl e
      | Inr p \<Rightarrow>
          (let parted = py_slice_from (- topn) p in
           case np_take a parted of
             Inl e \<Rightarrow> Inl e
           | Inr vals \<Rightarrow> np_take parted (srt (map score_neg vals))))"

text \<open>
  \<^verbatim>\<open>
  def topn_recommendations(scores, topn=10):
      recommendations = np.apply_along_axis(topidx, 1, scores, topn)
      return recommendations
  \<close>
  \<^verbatim>\<open>np.apply_along_axis\<close> raises \<^verbatim>\<open>ValueError\<close> when there is no row to iterate
  over, and otherwise calls the function on every row in order; the first exception
  ends the call.
\<close>

fun map_err :: "('a \<Rightarrow> error + 'b) \<Rightarrow> 'a list \<Rightarrow> error + 'b list" where
  "map_err f [] = Inr []"
| "map_err f (x # xs) =
     (case f x of
        Inl e \<Rightarrow> Inl e
      | Inr y \<Rightarrow> (case map_err f xs of Inl e \<Rightarrow> Inl e | Inr ys \<Rightarrow> Inr (y # ys)))"

definition topn_recommendations ::
  "selector \<Rightarrow> sorter \<Rightarrow> matrix \<Rightarrow> int \<Rightarrow> error + nat list list" where
  "topn_recommendations sel srt scores topn =
     (if scores = [] then Inl ValueError
      else map_err (\<lambda>row. topidx sel srt row topn) scores)"

text \<open>Two selection kernels and a sorting kernel that meet the contracts: a stable
  sort of the positions by value, the same with equal values in descending position
  order, and a stable argsort.\<close>

definition sel_stable :: selector where
  "sel_stable a k = sort_key (\<lambda>i. a ! i) [0..<length a]"

definition sel_rev :: selector where
  "sel_rev a k = sort_key (\<lambda>i. a ! i) (rev [0..<length a])"

definition srt_stable :: sorter where
  "srt_stable b = sort_key (\<lambda>i. b ! i) [0..<length b]"

section \<open>The suppressor: \<^verbatim>\<open>downvote_seen_items\<close>\<close>

text \<open>
  \<^verbatim>\<open>pd.factorize(values, sort=True)\<close> returns the codes and the sorted distinct
  values; the code of a value is its position among the sorted distinct values. The
  identifiers are values of a linear order (no missing values).
\<close>

fun index_of :: "'a list \<Rightarrow> 'a \<Rightarrow> nat" where
  "index_of [] x = 0"
| "index_of (y # ys) x = (if x = y then 0 else Suc (index_of ys x))"

definition factorize_sorted :: "'u::linorder list \<Rightarrow> nat list \<times> 'u list" where
  "factorize_sorted vals =
     (let uniques = sort (remdups vals) in (map (index_of uniques) vals, uniques))"

text \<open>
  \<^verbatim>\<open>np.ravel_multi_index((rows, cols), shape)\<close> with the default \<^verbatim>\<open>mode='raise'\<close>:
  every coordinate pair is checked against the shape, and one pair out of bounds raises
  \<^verbatim>\<open>ValueError\<close>; otherwise the flat row-major indices are returned.
\<close>

definition ravel_multi_index :: "nat list \<Rightarrow> int list \<Rightarrow> nat \<times> nat \<Rightarrow> error + nat list" where
  "ravel_multi_index rows cols shp =
     (case shp of (U, I) \<Rightarrow>
        if list_all (\<lambda>(r, c). r < U \<and> 0 \<le> c \<and> c < int I) (zip rows cols)
        then Inr (map (\<lambda>(r, c). r * I + nat c) (zip rows cols))
        else Inl ValueError)"

text \<open>
  \<^verbatim>\<open>np.put(a, ind, v)\<close> with the default \<^verbatim>\<open>mode='raise'\<close> writes \<open>v\<close> at the flat
  (row-major) positions \<open>ind\<close> one after the other, in place; a position outside the
  array raises \<^verbatim>\<open>IndexError\<close> and leaves what was written before. Flat position
  \<open>k\<close> of a matrix with \<open>I\<close> columns is row \<open>k div I\<close>, column \<open>k mod I\<close>.
\<close>

definition put_flat :: "'a list list \<Rightarrow> nat \<Rightarrow> 'a \<Rightarrow> 'a list list" where
  "put_flat m k v =
     (let I = snd (shape m); r = k div I; c = k mod I in m[r := (m ! r)[c := v]])"

fun np_put :: "'a list list \<Rightarrow> nat list \<Rightarrow> 'a \<Rightarrow> (error + unit) \<times> 'a list list" where
  "np_put m [] v = (Inr (), m)"
| "np_put m (k # ks) v =
     (if k < fst (shape m) * snd (shape m) then np_put (put_flat m k v) ks v
      else (Inl IndexError, m))"

text \<open>
  \<^verbatim>\<open>
  def downvote_seen_items(scores, data, data_description):
      userid = data_description['users']
      itemid = data_description['items']
      user_idx = data[userid].values
      item_idx = data[itemid].values
      user_idx, _ = pd.factorize(user_idx, sort=True)
      seen_idx_flat = np.ravel_multi_index((user_idx, item_idx), scores.shape)
      np.put(scores, seen_idx_flat, -np.inf)
  \<close>
  The interaction table is the list of its rows, each a (user, item) pair: the two
  columns that the description names. The function mutates \<open>scores\<close> and returns
  nothing, so the model returns the outcome together with the matrix as the call
  leaves it.
\<close>

definition downvote_seen_items ::
  "matrix \<Rightarrow> ('u::linorder \<times> int) list \<Rightarrow> (error + unit) \<times> matrix" where
  "downvote_seen_items scores data =
     (let user_idx = map fst data;
          item_idx = map snd data;
          user_idx' = fst (factorize_sorted user_idx)
      in case ravel_multi_index user_idx' item_idx (shape scores) of
           Inl e \<Rightarrow> (Inl e, scores)
         | Inr seen_idx_flat \<Rightarrow> np_put scores seen_idx_flat NegInf)"

text \<open>The rank of a user identifier in the ascending sort of the distinct user
  identifiers of the table, as the specification words it.\<close>

definition user_rank :: "('u::linorder \<times> int) list \<Rightarrow> 'u \<Rightarrow> nat" where
  "user_rank data u = card {v \<in> fst ` set data. v < u}"

section \<open>The evaluator: \<^verbatim>\<open>model_evaluate\<close>\<close>

text \<open>
  A metric is a float: a number, idealised as a real, or NaN, which numpy returns for
  the mean of an empty array and for \<^verbatim>\<open>0.0 / 0\<close>.
\<close>

datatype npfloat = NaN | Val real

text \<open>\<^verbatim>\<open>recommended_items[:, :topn] == holdout_items.reshape(-1, 1)\<close>, for a matrix
  and a holdout column of the same number of rows.\<close>

definition hits_mask :: "'a list list \<Rightarrow> 'a list \<Rightarrow> int \<Rightarrow> bool list list" where
  "hits_mask recommended_items holdout_items topn =
     map2 (\<lambda>row t. map (\<lambda>x. x = t) (py_slice_to topn row)) recommended_items holdout_items"

text \<open>\<^verbatim>\<open>np.where(hits_mask)[1]\<close>: the column of every true entry, row by row.\<close>

definition where_cols :: "bool list list \<Rightarrow> nat list" where
  "where_cols hits = concat (map (\<lambda>row. filter (\<lambda>k. row ! k) [0..<length row]) hits)"

text \<open>
  \<^verbatim>\<open>
  def model_evaluate(recommended_items, holdout, holdout_description, topn=10):
      itemid = holdout_description['items']
      holdout_items = holdout[itemid].values
      assert recommended_items.shape[0] == len(holdout_items)
      hits_mask = recommended_items[:, :topn] == holdout_items.reshape(-1, 1)
      hr = np.mean(hits_mask.any(axis=1))
      n_test_users = recommended_items.shape[0]
      hit_rank = np.where(hits_mask)[1] + 1.0
      mrr = np.sum(1 / hit_rank) / n_test_users
      n_items = holdout_description['n_items']
      cov = np.unique(recommended_items).size / n_items
      return hr, mrr, cov
  \<close>
  The holdout is the column of true items that the description names, and \<open>n_items\<close>
  is the Python integer of the description. With no test user the mean of the empty
  array and \<^verbatim>\<open>0.0 / 0\<close> are NaN; the last division is Python's division of two
  integers, which raises on a zero divisor.
\<close>

definition model_evaluate ::
  "'a list list \<Rightarrow> 'a list \<Rightarrow> int \<Rightarrow> int \<Rightarrow> error + (npfloat \<times> npfloat \<times> npfloat)" where
  "model_evaluate recommended_items holdout_items n_items topn =
     (if length recommended_items \<noteq> length holdout_items then Inl AssertionError
      else
        let hits = hits_mask recommended_items holdout_items topn;
            n_test_users = length recommended_items;
            hr = (if n_test_users = 0 then NaN
                  else Val (real (length (filter (list_ex (\<lambda>b. b)) hits)) / real n_test_users));
            hit_rank = map (\<lambda>k. real k + 1) (where_cols hits);
            mrr = (if n_test_users = 0 then NaN
                   else Val (sum_list (map (\<lambda>r. 1 / r) hit_rank) / real n_test_users));
            n_unique = length (remdups (concat recommended_items))
        in if n_items = 0 then Inl ZeroDivisionError
           else Inr (hr, mrr, Val (real n_unique / real_of_int n_items)))"

section \<open>Facts about the primitives\<close>

lemma score_neg_le [simp]: "score_neg x \<le> score_neg y \<longleftrightarrow> y \<le> x"
  by (cases x; cases y) (simp_all add: less_eq_score_def)

lemma sorted_map_score_neg: "sorted (map score_neg xs) \<longleftrightarrow> sorted (rev xs)"
  by (induction xs) (auto simp: sorted_append)

lemma perm_upt_length: "mset p = mset [0..<n] \<Longrightarrow> length p = n"
  by (metis length_upt minus_nat.diff_0 size_mset)

lemma perm_upt_set: "mset p = mset [0..<n] \<Longrightarrow> set p = {0..<n}"
  by (metis set_mset_mset set_upt)

lemma perm_upt_distinct: "mset p = mset [0..<n] \<Longrightarrow> distinct p"
  by (metis distinct_upt mset_eq_imp_distinct_iff)

lemma np_take_perm:
  assumes "mset q = mset [0..<length xs]"
  shows "\<exists>res. np_take xs q = Inr res \<and> res = map (\<lambda>j. xs ! j) q \<and> mset res = mset xs"
proof -
  have "set q = {0..<length xs}" using assms by (rule perm_upt_set)
  then have "list_all (\<lambda>i. i < length xs) q" by (simp add: list_all_iff)
  moreover have "mset (map (\<lambda>j. xs ! j) q) = mset xs"
  proof -
    have "mset (map (\<lambda>j. xs ! j) q) = image_mset (\<lambda>j. xs ! j) (mset q)" by simp
    also have "\<dots> = mset (map (\<lambda>j. xs ! j) [0..<length xs])" using assms by simp
    also have "\<dots> = mset xs" by (simp add: map_nth)
    finally show ?thesis .
  qed
  ultimately show ?thesis by (simp add: np_take_def)
qed

lemma py_slice_from_kth:
  assumes "0 \<le> norm_kth (length p) (- topn)" "norm_kth (length p) (- topn) < int (length p)"
  shows "py_slice_from (- topn) p = drop (nat (norm_kth (length p) (- topn))) p"
  using assms by (auto simp: py_slice_from_def norm_kth_def Let_def max_def min_def)

section \<open>The kernels meet their contracts\<close>

lemma sorted_key_nth_mono:
  assumes "sorted (map f p)" "i \<le> j" "j < length p"
  shows "f (p ! i) \<le> f (p ! j)"
proof -
  have "map f p ! i \<le> map f p ! j"
    using assms by (intro sorted_nth_mono) simp_all
  then show ?thesis using assms by simp
qed

lemma sel_stable_spec: "argpartition_spec sel_stable"
  unfolding argpartition_spec_def sel_stable_def
proof (intro allI conjI impI)
  fix a :: "score list" and k i j
  assume "i < length a" "j < length a" "i \<le> k \<and> k \<le> j"
  then show "a ! (sort_key (\<lambda>i. a ! i) [0..<length a] ! i)
      \<le> a ! (sort_key (\<lambda>i. a ! i) [0..<length a] ! j)"
    by (intro sorted_key_nth_mono) simp_all
next
  fix a :: "score list"
  show "mset (sort_key (\<lambda>i. a ! i) [0..<length a]) = mset [0..<length a]"
    by simp
qed

lemma sel_rev_spec: "argpartition_spec sel_rev"
  unfolding argpartition_spec_def sel_rev_def
proof (intro allI conjI impI)
  fix a :: "score list" and k i j
  assume "i < length a" "j < length a" "i \<le> k \<and> k \<le> j"
  then show "a ! (sort_key (\<lambda>i. a ! i) (rev [0..<length a]) ! i)
      \<le> a ! (sort_key (\<lambda>i. a ! i) (rev [0..<length a]) ! j)"
    by (intro sorted_key_nth_mono) simp_all
next
  fix a :: "score list"
  show "mset (sort_key (\<lambda>i. a ! i) (rev [0..<length a])) = mset [0..<length a]"
    by simp
qed

lemma srt_stable_spec: "argsort_spec srt_stable"
  by (simp add: argsort_spec_def srt_stable_def)

section \<open>One row: \<open>topidx\<close>\<close>

text \<open>When \<open>kth\<close> is in bounds, \<open>topidx\<close> returns the positions that the selection
  kernel put from \<open>kth\<close> on, rearranged so that their scores descend.\<close>

lemma topidx_core:
  assumes sel: "argpartition_spec sel" and srt: "argsort_spec srt"
    and k0: "0 \<le> norm_kth (length a) (- topn)"
    and k1: "norm_kth (length a) (- topn) < int (length a)"
  shows "\<exists>res. topidx sel srt a topn = Inr res \<and>
           mset res = mset (drop (nat (norm_kth (length a) (- topn)))
                              (sel a (nat (norm_kth (length a) (- topn))))) \<and>
           sorted (rev (map (\<lambda>i. a ! i) res))"
proof -
  define k where "k = nat (norm_kth (length a) (- topn))"
  define p where "p = sel a k"
  define parted where "parted = drop k p"
  define vals where "vals = map (\<lambda>i. a ! i) parted"
  define q where "q = srt (map score_neg vals)"
  have kl: "k < length a" using k0 k1 by (simp add: k_def)
  have pm: "mset p = mset [0..<length a]"
    using sel kl by (simp add: argpartition_spec_def p_def)
  have lp: "length p = length a" using pm by (rule perm_upt_length)
  have sp: "set p = {0..<length a}" using pm by (rule perm_upt_set)
  have ap: "np_argpartition sel a (- topn) = Inr p"
    using k0 k1 by (simp add: np_argpartition_def p_def k_def Let_def)
  have sl: "py_slice_from (- topn) p = parted"
    using py_slice_from_kth[of p topn] k0 k1 by (simp add: lp parted_def k_def)
  have "set parted \<subseteq> {0..<length a}"
    using sp set_drop_subset[of k p] by (simp add: parted_def)
  then have "list_all (\<lambda>i. i < length a) parted"
    by (auto simp: list_all_iff)
  then have tk: "np_take a parted = Inr vals"
    by (simp add: np_take_def vals_def)
  have qm: "mset q = mset [0..<length parted]"
    using srt by (simp add: argsort_spec_def q_def vals_def)
  from np_take_perm[OF qm] obtain res where
    r1: "np_take parted q = Inr res" and r2: "res = map (\<lambda>j. parted ! j) q"
    and r3: "mset res = mset parted" by blast
  have ti: "topidx sel srt a topn = Inr res"
    by (simp add: topidx_def ap sl tk r1 q_def[symmetric])
  have "sorted (map (\<lambda>i. map score_neg vals ! i) q)"
    using srt by (simp add: argsort_spec_def q_def)
  moreover have "map (\<lambda>i. map score_neg vals ! i) q = map score_neg (map (\<lambda>i. a ! i) res)"
  proof -
    have "set q = {0..<length parted}" using qm by (rule perm_upt_set)
    then show ?thesis by (simp add: r2 vals_def)
  qed
  ultimately have "sorted (map score_neg (map (\<lambda>i. a ! i) res))"
    by (simp only:)
  then have "sorted (rev (map (\<lambda>i. a ! i) res))"
    by (simp only: sorted_map_score_neg)
  with ti r3 show ?thesis by (auto simp: parted_def p_def k_def)
qed

text \<open>What the contract of the selection kernel gives for the positions kept.\<close>

lemma kept_positions:
  assumes sel: "argpartition_spec sel" and k: "k < length a"
    and res: "mset res = mset (drop k (sel a k))"
  shows "length res = length a - k" and "distinct res" and "set res \<subseteq> {0..<length a}"
    and "\<forall>i \<in> set res. \<forall>j < length a. j \<notin> set res \<longrightarrow> a ! j \<le> a ! i"
    and "mset (res @ take k (sel a k)) = mset [0..<length a]"
proof -
  define p where "p = sel a k"
  have pm: "mset p = mset [0..<length a]"
    using sel k by (simp add: argpartition_spec_def p_def)
  have lp: "length p = length a" using pm by (rule perm_upt_length)
  have sp: "set p = {0..<length a}" using pm by (rule perm_upt_set)
  have dp: "distinct p" using pm by (rule perm_upt_distinct)
  have "\<forall>i < length a. \<forall>j < length a. i \<le> k \<and> k \<le> j \<longrightarrow> a ! (p ! i) \<le> a ! (p ! j)"
    using sel k by (simp add: argpartition_spec_def p_def)
  then have part: "\<And>i j. i \<le> k \<Longrightarrow> k \<le> j \<Longrightarrow> j < length a \<Longrightarrow> a ! (p ! i) \<le> a ! (p ! j)"
    by (meson le_less_trans)
  have sr: "set res = set (drop k p)"
    using res by (metis p_def set_mset_mset)
  show "length res = length a - k"
    using res lp by (metis length_drop p_def size_mset)
  show "distinct res"
    using res dp by (metis distinct_drop mset_eq_imp_distinct_iff p_def)
  show "set res \<subseteq> {0..<length a}"
    using sr sp set_drop_subset[of k p] by simp
  show "mset (res @ take k (sel a k)) = mset [0..<length a]"
  proof -
    have "mset (res @ take k p) = mset (take k p) + mset (drop k p)"
      using res by (simp add: p_def)
    also have "\<dots> = mset (take k p @ drop k p)"
      by (simp only: mset_append)
    also have "\<dots> = mset p" by (simp only: append_take_drop_id)
    finally show ?thesis using pm by (simp add: p_def)
  qed
  show "\<forall>i \<in> set res. \<forall>j < length a. j \<notin> set res \<longrightarrow> a ! j \<le> a ! i"
  proof (intro ballI allI impI)
    fix i j assume i: "i \<in> set res" and j: "j < length a" "j \<notin> set res"
    from i sr obtain j' where j': "k \<le> j'" "j' < length p" "i = p ! j'"
      by (auto simp: in_set_conv_nth) (metis add.commute le_add2 less_diff_conv)
    have "j \<in> set p" using j sp by simp
    then have "j \<in> set (take k p) \<union> set (drop k p)"
      by (metis append_take_drop_id set_append)
    then have "j \<in> set (take k p)" using j sr by simp
    then obtain i' where i': "i' < k" "j = p ! i'"
      by (auto simp: in_set_conv_nth)
    show "a ! j \<le> a ! i"
      using part[of i' j'] i' j' lp by simp
  qed
qed

lemma norm_kth_valid:
  assumes "- int (length a) < n" "n \<le> int (length a)"
  shows "0 \<le> norm_kth (length a) (- n)" "norm_kth (length a) (- n) < int (length a)"
    "length a - nat (norm_kth (length a) (- n)) = (if 0 < n then nat n else length a - nat (- n))"
  using assms by (auto simp: norm_kth_def)

lemma topidx_row:
  assumes sel: "argpartition_spec sel" and srt: "argsort_spec srt"
    and n: "- int (length a) < n" "n \<le> int (length a)"
  shows "\<exists>res. topidx sel srt a n = Inr res \<and>
           length res = (if 0 < n then nat n else length a - nat (- n)) \<and>
           distinct res \<and> set res \<subseteq> {0..<length a} \<and>
           sorted (rev (map (\<lambda>i. a ! i) res)) \<and>
           (\<forall>i \<in> set res. \<forall>j < length a. j \<notin> set res \<longrightarrow> a ! j \<le> a ! i) \<and>
           (\<exists>full. mset full = mset [0..<length a] \<and> sorted (rev (map (\<lambda>i. a ! i) full)) \<and>
                   take (length res) full = res)"
proof -
  define k where "k = nat (norm_kth (length a) (- n))"
  note v = norm_kth_valid[OF n]
  have kl: "k < length a" using v(1,2) by (simp add: k_def)
  from topidx_core[OF sel srt v(1,2)] obtain res where
    ti: "topidx sel srt a n = Inr res" and
    rm: "mset res = mset (drop k (sel a k))" and
    rs: "sorted (rev (map (\<lambda>i. a ! i) res))" by (auto simp: k_def)
  note kp = kept_positions[OF sel kl rm]
  define low where "low = rev (sort_key (\<lambda>i. a ! i) (take k (sel a k)))"
  define full where "full = res @ low"
  have f1: "mset full = mset [0..<length a]"
    using kp(5) by (simp add: full_def low_def)
  have sl: "set low \<subseteq> {0..<length a} - set res"
  proof -
    have "distinct (res @ take k (sel a k))"
      using kp(5) by (rule perm_upt_distinct)
    moreover have "set (res @ take k (sel a k)) = {0..<length a}"
      using kp(5) by (rule perm_upt_set)
    ultimately show ?thesis by (auto simp: low_def)
  qed
  have f2: "sorted (rev (map (\<lambda>i. a ! i) full))"
  proof -
    have "sorted (map (\<lambda>i. a ! i) (sort_key (\<lambda>i. a ! i) (take k (sel a k))))"
      by (rule sorted_sort_key)
    moreover have "\<forall>x \<in> set low. \<forall>y \<in> set res. a ! x \<le> a ! y"
      using kp(4) sl by auto
    ultimately show ?thesis
      using rs by (auto simp: full_def low_def sorted_append rev_map)
  qed
  have f3: "take (length res) full = res" by (simp add: full_def)
  have "length res = (if 0 < n then nat n else length a - nat (- n))"
    using kp(1) v(3) by (simp add: k_def)
  with ti kp(2,3,4) rs f1 f2 f3 show ?thesis by blast
qed

lemma map_err_Inr:
  assumes "\<forall>x \<in> set xs. \<exists>y. f x = Inr y \<and> P x y"
  shows "\<exists>ys. map_err f xs = Inr ys \<and> length ys = length xs \<and>
           (\<forall>r < length xs. P (xs ! r) (ys ! r))"
  using assms
proof (induction xs)
  case Nil
  then show ?case by simp
next
  case (Cons x xs)
  from Cons.prems obtain y where y: "f x = Inr y" "P x y" by auto
  from Cons obtain ys where ys: "map_err f xs = Inr ys" "length ys = length xs"
    "\<forall>r < length xs. P (xs ! r) (ys ! r)" by auto
  have "\<forall>r < length (x # xs). P ((x # xs) ! r) ((y # ys) ! r)"
    using y(2) ys(3) by (auto simp: nth_Cons split: nat.splits)
  then show ?case using y(1) ys(1,2) by simp
qed

lemma topidx_Inr_cases:
  assumes "topidx sel srt a n = Inr res"
  shows "a = [] \<or> (- int (length a) < n \<and> n \<le> int (length a))"
  using assms
  by (auto simp: topidx_def np_argpartition_def norm_kth_def Let_def split: if_splits sum.splits)

lemma np_argpartition_Inl_iff:
  assumes "a \<noteq> []"
  shows "np_argpartition sel a (- n) = Inl ValueError \<longleftrightarrow> \<not> (- int (length a) < n \<and> n \<le> int (length a))"
  using assms
  by (auto simp: np_argpartition_def norm_kth_def Let_def split: if_splits)

lemma topidx_empty:
  assumes sel: "argpartition_spec sel" and srt: "argsort_spec srt"
  shows "topidx sel srt [] n = Inr []"
proof -
  have "mset (sel [] k) = mset []" for k
    using sel by (simp add: argpartition_spec_def del: mset_zero_iff)
  then have s: "sel [] k = []" for k by simp
  have "mset (srt []) = mset []"
    using srt by (simp add: argsort_spec_def del: mset_zero_iff)
  then have t: "srt [] = []" by simp
  show ?thesis
    by (simp add: topidx_def np_argpartition_def s t py_slice_from_def np_take_def)
qed

lemma topidx_distinct_row:
  assumes sel: "argpartition_spec sel" and srt: "argsort_spec srt"
    and d: "distinct a" and n: "1 \<le> n" "n \<le> int (length a)"
  shows "topidx sel srt a n = Inr (take (nat n) (rev (sort_key (\<lambda>i. a ! i) [0..<length a])))"
proof -
  define ref where "ref = rev (sort_key (\<lambda>i. a ! i) [0..<length a])"
  from n have n': "- int (length a) < n" by simp
  from topidx_row[OF sel srt n' n(2)] n(1) obtain res full where
    ti: "topidx sel srt a n = Inr res" and lr: "length res = nat n" and
    fm: "mset full = mset [0..<length a]" and
    fs: "sorted (rev (map (\<lambda>i. a ! i) full))" and ft: "take (length res) full = res"
    by auto
  have ma: "mset (map (\<lambda>i. a ! i) [0..<length a]) = mset a"
    by (simp add: map_nth)
  have "mset (rev (map (\<lambda>i. a ! i) full)) = mset a"
  proof -
    have "mset (rev (map (\<lambda>i. a ! i) full)) = image_mset (\<lambda>i. a ! i) (mset full)" by simp
    also have "\<dots> = mset (map (\<lambda>i. a ! i) [0..<length a])" using fm by simp
    finally show ?thesis using ma by simp
  qed
  then have e1: "sort a = rev (map (\<lambda>i. a ! i) full)"
    using fs by (intro properties_for_sort) simp_all
  have "mset (rev (map (\<lambda>i. a ! i) ref)) = mset a"
  proof -
    have "mset (rev (map (\<lambda>i. a ! i) ref)) = image_mset (\<lambda>i. a ! i) (mset [0..<length a])"
      by (simp add: ref_def)
    also have "\<dots> = mset (map (\<lambda>i. a ! i) [0..<length a])" by simp
    finally show ?thesis using ma by simp
  qed
  moreover have "sorted (rev (map (\<lambda>i. a ! i) ref))"
    by (simp add: ref_def rev_map)
  ultimately have e2: "sort a = rev (map (\<lambda>i. a ! i) ref)"
    by (intro properties_for_sort) simp_all
  have "rev (map (\<lambda>i. a ! i) full) = rev (map (\<lambda>i. a ! i) ref)"
    using e1 e2 by simp
  then have me: "map (\<lambda>i. a ! i) full = map (\<lambda>i. a ! i) ref" by simp
  have "set full = {0..<length a}" using fm by (rule perm_upt_set)
  moreover have "set ref = {0..<length a}" by (simp add: ref_def)
  moreover have "inj_on (\<lambda>i. a ! i) {0..<length a}"
    using d by (auto simp: inj_on_def nth_eq_iff_index_eq)
  ultimately have "inj_on (\<lambda>i. a ! i) (set full \<union> set ref)" by simp
  then have "full = ref" using me by (simp add: inj_on_map_eq_map)
  with ti ft lr show ?thesis by (simp add: ref_def)
qed

section \<open>Facts about the metrics\<close>

lemma hit_positions_count:
  "length (filter (\<lambda>k. map (\<lambda>x. x = t) xs ! k) [0..<length (map (\<lambda>x. x = t) xs)])
     = count_list xs t"
proof -
  have "filter (\<lambda>k. map (\<lambda>x. x = t) xs ! k) [0..<length xs]
          = filter (\<lambda>k. xs ! k = t) [0..<length xs]"
    by (rule filter_cong) simp_all
  moreover have "length (filter (\<lambda>k. xs ! k = t) [0..<length xs]) = count_list xs t"
  proof (induction xs rule: rev_induct)
    case Nil
    then show ?case by simp
  next
    case (snoc x xs)
    have "filter (\<lambda>k. (xs @ [x]) ! k = t) [0..<length xs]
            = filter (\<lambda>k. xs ! k = t) [0..<length xs]"
      by (rule filter_cong) (simp_all add: nth_append)
    then show ?case using snoc by (simp add: nth_append)
  qed
  ultimately show ?thesis by simp
qed

lemma row_reciprocal_bound:
  assumes "length (filter (\<lambda>k. row ! k) [0..<length row]) \<le> 1"
  shows "0 \<le> sum_list (map (\<lambda>k. 1 / (real k + 1)) (filter (\<lambda>k. row ! k) [0..<length row]))"
    and "sum_list (map (\<lambda>k. 1 / (real k + 1)) (filter (\<lambda>k. row ! k) [0..<length row]))
           \<le> (if list_ex (\<lambda>b. b) row then 1 else 0)"
proof -
  show "0 \<le> sum_list (map (\<lambda>k. 1 / (real k + 1)) (filter (\<lambda>k. row ! k) [0..<length row]))"
    by (rule sum_list_nonneg) auto
  show "sum_list (map (\<lambda>k. 1 / (real k + 1)) (filter (\<lambda>k. row ! k) [0..<length row]))
           \<le> (if list_ex (\<lambda>b. b) row then 1 else 0)"
  proof (cases "filter (\<lambda>k. row ! k) [0..<length row]")
    case Nil
    then show ?thesis by simp
  next
    case (Cons k ks)
    with assms have ks: "ks = []" by simp
    have "k \<in> set (filter (\<lambda>k. row ! k) [0..<length row])" using Cons by simp
    then have "k < length row" "row ! k" by simp_all
    then have "list_ex (\<lambda>b. b) row" by (auto simp: list_ex_iff intro: nth_mem)
    then show ?thesis using Cons ks by simp
  qed
qed

lemma reciprocal_rank_nonneg:
  "0 \<le> sum_list (map (\<lambda>r. 1 / r) (map (\<lambda>k. real k + 1) (where_cols hits)))"
  by (rule sum_list_nonneg) auto

lemma reciprocal_rank_bound:
  assumes "\<forall>row \<in> set hits. length (filter (\<lambda>k. row ! k) [0..<length row]) \<le> 1"
  shows "sum_list (map (\<lambda>r. 1 / r) (map (\<lambda>k. real k + 1) (where_cols hits)))
           \<le> real (length (filter (list_ex (\<lambda>b. b)) hits))"
  using assms
proof (induction hits)
  case Nil
  show ?case by (simp add: where_cols_def)
next
  case (Cons row hits)
  have w: "where_cols (row # hits) = filter (\<lambda>k. row ! k) [0..<length row] @ where_cols hits"
    by (simp add: where_cols_def)
  have r: "sum_list (map (\<lambda>k. 1 / (real k + 1)) (filter (\<lambda>k. row ! k) [0..<length row]))
           \<le> (if list_ex (\<lambda>b. b) row then 1 else 0)"
    using Cons.prems by (intro row_reciprocal_bound(2)) simp
  have h: "sum_list (map (\<lambda>r. 1 / r) (map (\<lambda>k. real k + 1) (where_cols hits)))
           \<le> real (length (filter (list_ex (\<lambda>b. b)) hits))"
    using Cons by simp
  show ?case
  proof (cases "list_ex (\<lambda>b. b) row")
    case True
    then show ?thesis using r h by (simp add: w comp_def)
  next
    case False
    then show ?thesis using r h by (simp add: w comp_def)
  qed
qed

lemma hits_mask_rows:
  assumes "length rec = length hold"
    and "\<forall>r < length rec. count_list (py_slice_to topn (rec ! r)) (hold ! r) \<le> 1"
  shows "\<forall>row \<in> set (hits_mask rec hold topn).
           length (filter (\<lambda>k. row ! k) [0..<length row]) \<le> 1"
proof
  fix row assume "row \<in> set (hits_mask rec hold topn)"
  then obtain r where r: "r < length rec"
    and row: "row = map (\<lambda>x. x = hold ! r) (py_slice_to topn (rec ! r))"
    using assms(1) by (auto simp: hits_mask_def in_set_zip)
  show "length (filter (\<lambda>k. row ! k) [0..<length row]) \<le> 1"
    unfolding row hit_positions_count using assms(2) r by simp
qed

section \<open>Facts about the suppressor\<close>

lemma index_of_sorted:
  assumes "sorted xs" "distinct xs" "x \<in> set xs"
  shows "index_of xs x = card {v \<in> set xs. v < x}"
  using assms
proof (induction xs)
  case Nil
  then show ?case by simp
next
  case (Cons y ys)
  show ?case
  proof (cases "x = y")
    case True
    have "{v \<in> set (y # ys). v < y} = {}" using Cons.prems(1) by auto
    then show ?thesis using True by simp
  next
    case False
    then have x: "x \<in> set ys" using Cons.prems(3) by simp
    then have yx: "y < x" using Cons.prems(1,2) False by auto
    have "{v \<in> set (y # ys). v < x} = insert y {v \<in> set ys. v < x}"
      using yx by auto
    moreover have "y \<notin> {v \<in> set ys. v < x}" using Cons.prems(2) by simp
    ultimately have "card {v \<in> set (y # ys). v < x} = Suc (card {v \<in> set ys. v < x})"
      by simp
    moreover have "index_of ys x = card {v \<in> set ys. v < x}"
      using Cons.IH Cons.prems(1,2) x by simp
    ultimately show ?thesis using False by simp
  qed
qed

lemma factorize_codes:
  "fst (factorize_sorted (map fst data)) = map (\<lambda>(u, i). user_rank data u) data"
proof -
  have "index_of (sort (remdups (map fst data))) u = user_rank data u"
    if "u \<in> fst ` set data" for u
    using index_of_sorted[of "sort (remdups (map fst data))" u] that
    by (simp add: user_rank_def)
  then show ?thesis
    by (auto simp: factorize_sorted_def Let_def)
qed

lemma flat_index_unique:
  fixes I :: nat
  assumes "c < I" "c' < I" "r * I + c = r' * I + c'"
  shows "r = r' \<and> c = c'"
proof -
  have "(r * I + c) div I = r" "(r * I + c) mod I = c" using assms(1) by simp_all
  moreover have "(r' * I + c') div I = r'" "(r' * I + c') mod I = c'" using assms(2) by simp_all
  ultimately show ?thesis using assms(3) by metis
qed

lemma flat_index_bound:
  fixes I :: nat
  assumes "r < U" "c < I"
  shows "r * I + c < U * I"
proof -
  have "r * I + c < r * I + I" using assms(2) by simp
  also have "\<dots> = Suc r * I" by simp
  also have "\<dots> \<le> U * I" using assms(1) by (intro mult_le_mono1) simp
  finally show ?thesis .
qed

lemma shape_matrix:
  assumes "is_matrix m I" "m \<noteq> []"
  shows "shape m = (length m, I)"
  using assms by (cases m) (simp_all add: shape_def is_matrix_def)

lemma put_flat_matrix:
  assumes m: "is_matrix m I" and k: "k < length m * I"
  shows "length (put_flat m k v) = length m" and "is_matrix (put_flat m k v) I"
    and "\<forall>r < length m. \<forall>c < I. put_flat m k v ! r ! c = (if r * I + c = k then v else m ! r ! c)"
proof -
  have ne: "m \<noteq> []" using k by auto
  have I: "0 < I" using k by (cases I) simp_all
  have sh: "snd (shape m) = I" using shape_matrix[OF m ne] by simp
  have pf: "put_flat m k v = m[k div I := (m ! (k div I))[k mod I := v]]"
    by (simp add: put_flat_def Let_def sh)
  have kr: "k div I < length m" using k I by (simp add: less_mult_imp_div_less)
  have kc: "k mod I < I" using I by simp
  have rl: "\<And>r. r < length m \<Longrightarrow> length (m ! r) = I"
    using m by (simp add: is_matrix_def list_all_iff)
  show "length (put_flat m k v) = length m" by (simp add: pf)
  show "is_matrix (put_flat m k v) I"
    using m kr rl unfolding pf is_matrix_def list_all_iff
    by (auto dest!: set_update_subset_insert[THEN subsetD])
  show "\<forall>r < length m. \<forall>c < I. put_flat m k v ! r ! c = (if r * I + c = k then v else m ! r ! c)"
  proof (intro allI impI)
    fix r c assume r: "r < length m" and c: "c < I"
    have iff: "r * I + c = k \<longleftrightarrow> r = k div I \<and> c = k mod I"
    proof
      assume e: "r * I + c = k"
      have "(r * I + c) div I = r" "(r * I + c) mod I = c" using c by simp_all
      then show "r = k div I \<and> c = k mod I" unfolding e by simp
    next
      assume "r = k div I \<and> c = k mod I"
      then show "r * I + c = k" by simp
    qed
    have lr: "c < length (m ! r)" using c rl[OF r] by simp
    show "put_flat m k v ! r ! c = (if r * I + c = k then v else m ! r ! c)"
    proof (cases "r = k div I")
      case True
      then have "put_flat m k v ! r = (m ! r)[k mod I := v]"
        using r by (simp add: pf)
      then show ?thesis using True lr iff by (simp add: nth_list_update)
    next
      case False
      then have "put_flat m k v ! r = m ! r" by (simp add: pf)
      then show ?thesis using False iff by simp
    qed
  qed
qed

lemma np_put_matrix:
  assumes "is_matrix m I" and "\<forall>k \<in> set ks. k < length m * I"
  shows "\<exists>m'. np_put m ks v = (Inr (), m') \<and> length m' = length m \<and> is_matrix m' I \<and>
           (\<forall>r < length m. \<forall>c < I. m' ! r ! c = (if r * I + c \<in> set ks then v else m ! r ! c))"
  using assms
proof (induction ks arbitrary: m)
  case Nil
  then show ?case by simp
next
  case (Cons k ks)
  have k: "k < length m * I" using Cons.prems(2) by simp
  then have ne: "m \<noteq> []" by auto
  note pf = put_flat_matrix[OF Cons.prems(1) k, of v]
  have sh: "fst (shape m) * snd (shape m) = length m * I"
    using shape_matrix[OF Cons.prems(1) ne] by simp
  have "\<forall>k' \<in> set ks. k' < length (put_flat m k v) * I"
    using Cons.prems(2) pf(1) by simp
  from Cons.IH[OF pf(2) this] obtain m' where
    m': "np_put (put_flat m k v) ks v = (Inr (), m')" "length m' = length m" "is_matrix m' I"
    "\<forall>r < length m. \<forall>c < I. m' ! r ! c
        = (if r * I + c \<in> set ks then v else put_flat m k v ! r ! c)"
    using pf(1) by auto
  have "\<forall>r < length m. \<forall>c < I. m' ! r ! c = (if r * I + c \<in> set (k # ks) then v else m ! r ! c)"
    using m'(4) pf(3) by auto
  then show ?case using m'(1,2,3) k sh by simp
qed

lemma ravel_of_table:
  "ravel_multi_index (fst (factorize_sorted (map fst data))) (map snd data) (U, I) =
     (if \<forall>(u, i) \<in> set data. user_rank data u < U \<and> 0 \<le> i \<and> i < int I
      then Inr (map (\<lambda>(u, i). user_rank data u * I + nat i) data)
      else Inl ValueError)"
proof -
  have "zip (map f xs) (map snd xs) = map (\<lambda>(u, i). (f (u, i), i)) xs"
    for f :: "'a \<times> int \<Rightarrow> nat" and xs
    by (induction xs) auto
  from this[of "\<lambda>(u, i). user_rank data u" data]
  have z: "zip (map (\<lambda>(u, i). user_rank data u) data) (map snd data)
             = map (\<lambda>(u, i). (user_rank data u, i)) data"
    by simp
  show ?thesis
    unfolding factorize_codes ravel_multi_index_def z
    by (auto simp: list_all_iff split: prod.splits)
qed

lemma downvote_out_of_bounds:
  assumes m: "is_matrix scores I"
    and oob: "\<not> (\<forall>(u, i) \<in> set data. user_rank data u < length scores \<and> 0 \<le> i \<and> i < int I)"
  shows "downvote_seen_items scores data = (Inl ValueError, scores)"
proof -
  have "ravel_multi_index (fst (factorize_sorted (map fst data))) (map snd data) (shape scores)
          = Inl ValueError"
  proof (cases "scores = []")
    case True
    have "\<not> (\<forall>(u, i) \<in> set data. user_rank data u < 0 \<and> 0 \<le> i \<and> i < int 0)"
      using oob True by auto
    then have "ravel_multi_index (fst (factorize_sorted (map fst data))) (map snd data) (0, 0)
          = Inl ValueError"
      unfolding ravel_of_table by (rule if_not_P)
    then show ?thesis using True by (simp add: shape_def)
  next
    case False
    have "ravel_multi_index (fst (factorize_sorted (map fst data))) (map snd data)
            (length scores, I) = Inl ValueError"
      unfolding ravel_of_table using oob by (rule if_not_P)
    then show ?thesis by (simp add: shape_matrix[OF m False])
  qed
  then show ?thesis by (simp add: downvote_seen_items_def Let_def)
qed

lemma downvote_in_bounds:
  assumes m: "is_matrix scores I"
    and inb: "\<forall>(u, i) \<in> set data. user_rank data u < length scores \<and> 0 \<le> i \<and> i < int I"
  shows "\<exists>scores'. downvote_seen_items scores data = (Inr (), scores') \<and>
           length scores' = length scores \<and> is_matrix scores' I \<and>
           (\<forall>r < length scores. \<forall>c < I. scores' ! r ! c =
              (if \<exists>(u, i) \<in> set data. user_rank data u = r \<and> i = int c then NegInf
               else scores ! r ! c))"
proof (cases "scores = []")
  case True
  then have "data = []" using inb by (cases data) auto
  then show ?thesis
    using True by (simp add: downvote_seen_items_def Let_def shape_def ravel_multi_index_def
        factorize_sorted_def is_matrix_def)
next
  case False
  define flat where "flat = map (\<lambda>(u, i). user_rank data u * I + nat i) data"
  have dv: "downvote_seen_items scores data = np_put scores flat NegInf"
    using inb
    by (simp add: downvote_seen_items_def Let_def shape_matrix[OF m False] ravel_of_table flat_def)
  have "\<forall>k \<in> set flat. k < length scores * I"
    using inb by (auto simp: flat_def intro!: flat_index_bound)
  from np_put_matrix[OF m this, of NegInf] obtain scores' where
    s: "np_put scores flat NegInf = (Inr (), scores')" "length scores' = length scores"
      "is_matrix scores' I"
      "\<forall>r < length scores. \<forall>c < I. scores' ! r ! c
          = (if r * I + c \<in> set flat then NegInf else scores ! r ! c)"
    by blast
  have "(r * I + c \<in> set flat) = (\<exists>(u, i) \<in> set data. user_rank data u = r \<and> i = int c)"
    if "c < I" for r c
  proof
    assume "r * I + c \<in> set flat"
    then obtain u i where ui: "(u, i) \<in> set data" "r * I + c = user_rank data u * I + nat i"
      by (auto simp: flat_def)
    have i: "0 \<le> i" "nat i < I" using inb ui(1) by auto
    from flat_index_unique[OF that i(2) ui(2)] i(1) have "user_rank data u = r \<and> i = int c"
      by auto
    with ui(1) show "\<exists>(u, i) \<in> set data. user_rank data u = r \<and> i = int c" by blast
  next
    assume "\<exists>(u, i) \<in> set data. user_rank data u = r \<and> i = int c"
    then obtain u i where "(u, i) \<in> set data" "user_rank data u = r" "i = int c" by blast
    then show "r * I + c \<in> set flat" by (force simp: flat_def)
  qed
  with s(4) have "\<forall>r < length scores. \<forall>c < I. scores' ! r ! c =
              (if \<exists>(u, i) \<in> set data. user_rank data u = r \<and> i = int c then NegInf
               else scores ! r ! c)"
    by simp
  with dv s(1,2,3) show ?thesis by simp
qed

lemma user_rank_filter:
  "user_rank data u = length (filter (\<lambda>v. v < u) (remdups (map fst data)))"
proof -
  have "{v \<in> fst ` set data. v < u} = set (filter (\<lambda>v. v < u) (remdups (map fst data)))"
    by auto
  moreover have "distinct (filter (\<lambda>v. v < u) (remdups (map fst data)))"
    by simp
  ultimately show ?thesis
    unfolding user_rank_def by (simp only: distinct_card)
qed

section \<open>The claims\<close>

text \<open>
  Claim C1. For the score matrix \<open>[[0.1, 0.9, 0.3, 0.2], [0.4, 0.2, 0.8, 0.1]]\<close> of two
  users and four items, with no seen items, \<open>topn_recommendations\<close> with \<open>topn = 2\<close>
  returns exactly \<open>[[1, 2], [2, 0]]\<close>, whatever the selection and sorting kernels do
  within their contracts; and \<open>model_evaluate\<close> of that result against the holdout
  truth \<open>[1, 0]\<close> with \<open>n_items = 4\<close> and \<open>topn = 2\<close> returns \<open>hr = 1.0\<close>,
  \<open>mrr = 0.75\<close> and coverage \<open>0.75\<close>.
\<close>

theorem scenario_end_to_end:
  assumes "argpartition_spec sel" and "argsort_spec srt"
  shows "topn_recommendations sel srt
           [[Fin 0.1, Fin 0.9, Fin 0.3, Fin 0.2], [Fin 0.4, Fin 0.2, Fin 0.8, Fin 0.1]] 2
           = Inr [[1, 2], [2, 0]]
         \<and> model_evaluate [[1, 2], [2, 0 :: nat]] [1, 0] 4 2
           = Inr (Val 1, Val 0.75, Val 0.75)"
proof -
  have r0: "topidx sel srt [Fin 0.1, Fin 0.9, Fin 0.3, Fin 0.2] 2 = Inr [1, 2]"
    by (subst topidx_distinct_row[OF assms])
       (simp_all add: less_eq_score_def upt_conv_Cons)
  have r1: "topidx sel srt [Fin 0.4, Fin 0.2, Fin 0.8, Fin 0.1] 2 = Inr [2, 0]"
    by (subst topidx_distinct_row[OF assms])
       (simp_all add: less_eq_score_def upt_conv_Cons)
  have "topn_recommendations sel srt
           [[Fin 0.1, Fin 0.9, Fin 0.3, Fin 0.2], [Fin 0.4, Fin 0.2, Fin 0.8, Fin 0.1]] 2
           = Inr [[1, 2], [2, 0]]"
    by (simp only: topn_recommendations_def map_err.simps r0 r1 sum.case list.simps if_False)
  moreover have "model_evaluate [[1, 2], [2, 0 :: nat]] [1, 0] 4 2
           = Inr (Val 1, Val 0.75, Val 0.75)"
    by (simp add: model_evaluate_def hits_mask_def where_cols_def py_slice_to_def
        upt_conv_Cons Let_def)
  ultimately show ?thesis by simp
qed

theorem scenario_end_to_end_witness:
  "argpartition_spec sel_stable \<and> argsort_spec srt_stable \<and>
   topn_recommendations sel_stable srt_stable
           [[Fin 0.1, Fin 0.9, Fin 0.3, Fin 0.2], [Fin 0.4, Fin 0.2, Fin 0.8, Fin 0.1]] 2
           = Inr [[1, 2], [2, 0]]
   \<and> model_evaluate [[1, 2], [2, 0 :: nat]] [1, 0] 4 2 = Inr (Val 1, Val 0.75, Val 0.75)"
  using scenario_end_to_end[OF sel_stable_spec srt_stable_spec] sel_stable_spec srt_stable_spec
  by simp

text \<open>
  Claim C2. Suppression correctness with frame condition: when every pair of the
  interaction table addresses an entry of the matrix, \<open>downvote_seen_items\<close> returns,
  the matrix keeps its shape, for every (user, item) pair of the table the entry at the
  row given by the rank of the user among the sorted distinct users and at the column
  of the item is negative infinity, and every entry that no pair addresses is unchanged.
\<close>

theorem suppression_correct:
  assumes m: "is_matrix scores I"
    and inb: "\<forall>(u, i) \<in> set data. user_rank data u < length scores \<and> 0 \<le> i \<and> i < int I"
  shows "\<exists>scores'. downvote_seen_items scores data = (Inr (), scores') \<and>
           length scores' = length scores \<and> is_matrix scores' I \<and>
           (\<forall>(u, i) \<in> set data. scores' ! user_rank data u ! nat i = NegInf) \<and>
           (\<forall>r < length scores. \<forall>c < I.
              (\<forall>(u, i) \<in> set data. \<not> (user_rank data u = r \<and> i = int c)) \<longrightarrow>
              scores' ! r ! c = scores ! r ! c)"
proof -
  from downvote_in_bounds[OF m inb] obtain scores' where
    s: "downvote_seen_items scores data = (Inr (), scores')" "length scores' = length scores"
      "is_matrix scores' I"
      "\<forall>r < length scores. \<forall>c < I. scores' ! r ! c =
         (if \<exists>(u, i) \<in> set data. user_rank data u = r \<and> i = int c then NegInf
          else scores ! r ! c)"
    by blast
  have "\<forall>(u, i) \<in> set data. scores' ! user_rank data u ! nat i = NegInf"
  proof (clarify)
    fix u i assume ui: "(u, i) \<in> set data"
    then have b: "user_rank data u < length scores" "0 \<le> i" "nat i < I" using inb by auto
    have "\<exists>(u', i') \<in> set data. user_rank data u' = user_rank data u \<and> i' = int (nat i)"
      using ui b(2) by force
    then show "scores' ! user_rank data u ! nat i = NegInf"
      using s(4) b(1,3) by simp
  qed
  moreover have "\<forall>r < length scores. \<forall>c < I.
              (\<forall>(u, i) \<in> set data. \<not> (user_rank data u = r \<and> i = int c)) \<longrightarrow>
              scores' ! r ! c = scores ! r ! c"
    using s(4) by auto
  ultimately show ?thesis using s(1,2,3) by blast
qed

theorem suppression_correct_witness:
  "is_matrix [[Fin 1, Fin 2], [Fin 3, Fin 4]] 2 \<and>
   list_all (\<lambda>(u, i).
      user_rank [(10 :: int, 1), (7, 0), (10, 0)] u < length [[Fin 1, Fin 2], [Fin 3, Fin 4]] \<and>
      0 \<le> i \<and> i < int 2) [(10 :: int, 1), (7, 0), (10, 0)] \<and>
   (\<exists>scores'. downvote_seen_items [[Fin 1, Fin 2], [Fin 3, Fin 4]]
                 [(10 :: int, 1), (7, 0), (10, 0)] = (Inr (), scores') \<and>
      length scores' = length [[Fin 1, Fin 2], [Fin 3, Fin 4]] \<and> is_matrix scores' 2 \<and>
      (\<forall>(u, i) \<in> set [(10 :: int, 1), (7, 0), (10, 0)].
         scores' ! user_rank [(10 :: int, 1), (7, 0), (10, 0)] u ! nat i = NegInf) \<and>
      (\<forall>r < length [[Fin 1, Fin 2], [Fin 3, Fin 4]]. \<forall>c < 2.
         (\<forall>(u, i) \<in> set [(10 :: int, 1), (7, 0), (10, 0)].
            \<not> (user_rank [(10 :: int, 1), (7, 0), (10, 0)] u = r \<and> i = int c)) \<longrightarrow>
         scores' ! r ! c = [[Fin 1, Fin 2], [Fin 3, Fin 4]] ! r ! c))"
proof -
  have m: "is_matrix [[Fin 1, Fin 2], [Fin 3, Fin 4]] 2"
    by (simp add: is_matrix_def)
  have inb: "\<forall>(u, i) \<in> set [(10 :: int, 1), (7, 0), (10, 0)].
      user_rank [(10 :: int, 1), (7, 0), (10, 0)] u < length [[Fin 1, Fin 2], [Fin 3, Fin 4]] \<and>
      0 \<le> i \<and> i < int 2"
    by (simp add: user_rank_filter)
  have inb': "list_all (\<lambda>(u, i).
      user_rank [(10 :: int, 1), (7, 0), (10, 0)] u < length [[Fin 1, Fin 2], [Fin 3, Fin 4]] \<and>
      0 \<le> i \<and> i < int 2) [(10 :: int, 1), (7, 0), (10, 0)]"
    using inb unfolding list_all_iff .
  show ?thesis
    by (intro conjI m inb' suppression_correct[OF m inb])
qed

text \<open>
  Claim C3. Top-N exhaustiveness: for every score matrix with at least one row and every
  \<open>n\<close> with \<open>1 \<le> n \<le> I\<close>, \<open>topn_recommendations\<close> returns, and the indices of
  each row of the result form a set of exactly \<open>n\<close> column indices attaining the
  \<open>n\<close> highest scores of that row: no column left out has a higher score than a column
  returned, and the set is the set of the first \<open>n\<close> positions of a full descending
  sort of the row.
\<close>

theorem topn_exhaustive:
  assumes sel: "argpartition_spec sel" and srt: "argsort_spec srt"
    and ne: "scores \<noteq> []" and m: "is_matrix scores I" and n: "1 \<le> n" "n \<le> int I"
  shows "\<exists>recs. topn_recommendations sel srt scores n = Inr recs \<and>
           length recs = length scores \<and>
           (\<forall>r < length scores.
              card (set (recs ! r)) = nat n \<and> set (recs ! r) \<subseteq> {0..<I} \<and>
              (\<forall>i \<in> set (recs ! r). \<forall>j < I. j \<notin> set (recs ! r) \<longrightarrow>
                 scores ! r ! j \<le> scores ! r ! i) \<and>
              (\<exists>full. mset full = mset [0..<I] \<and>
                 sorted (rev (map (\<lambda>i. scores ! r ! i) full)) \<and>
                 set (recs ! r) = set (take (nat n) full)))"
proof -
  let ?P = "\<lambda>a res. card (set res) = nat n \<and> set res \<subseteq> {0..<I} \<and>
              (\<forall>i \<in> set res. \<forall>j < I. j \<notin> set res \<longrightarrow> a ! j \<le> a ! i) \<and>
              (\<exists>full. mset full = mset [0..<I] \<and>
                 sorted (rev (map (\<lambda>i. a ! i) full)) \<and>
                 set res = set (take (nat n) full))"
  have "\<forall>a \<in> set scores. \<exists>res. topidx sel srt a n = Inr res \<and> ?P a res"
  proof
    fix a assume "a \<in> set scores"
    then have la: "length a = I" using m by (simp add: is_matrix_def list_all_iff)
    have n': "- int (length a) < n" "n \<le> int (length a)" using n la by simp_all
    from topidx_row[OF sel srt n'] n(1) la obtain res full where
      ti: "topidx sel srt a n = Inr res" and lr: "length res = nat n" and
      dr: "distinct res" and sr: "set res \<subseteq> {0..<I}" and
      dom: "\<forall>i \<in> set res. \<forall>j < I. j \<notin> set res \<longrightarrow> a ! j \<le> a ! i" and
      fm: "mset full = mset [0..<I]" and
      fs: "sorted (rev (map (\<lambda>i. a ! i) full))" and ft: "take (length res) full = res"
      by auto
    have "card (set res) = nat n" using dr lr by (simp add: distinct_card)
    moreover have "set res = set (take (nat n) full)" using ft lr by simp
    ultimately show "\<exists>res. topidx sel srt a n = Inr res \<and> ?P a res"
      using ti sr dom fm fs by blast
  qed
  from map_err_Inr[of scores "\<lambda>row. topidx sel srt row n" ?P, OF this]
  show ?thesis using ne by (simp add: topn_recommendations_def)
qed

theorem topn_exhaustive_witness:
  "argpartition_spec sel_stable \<and> argsort_spec srt_stable \<and>
   [[Fin 1, Fin 3, Fin 3], [Fin 2, Fin 0, Fin 1]] \<noteq> [] \<and>
   is_matrix [[Fin 1, Fin 3, Fin 3], [Fin 2, Fin 0, Fin 1]] 3 \<and> (1::int) \<le> 2 \<and> (2::int) \<le> int 3 \<and>
   (\<exists>recs. topn_recommendations sel_stable srt_stable
              [[Fin 1, Fin 3, Fin 3], [Fin 2, Fin 0, Fin 1]] 2 = Inr recs \<and>
           length recs = length [[Fin 1, Fin 3, Fin 3], [Fin 2, Fin 0, Fin 1]] \<and>
           (\<forall>r < length [[Fin 1, Fin 3, Fin 3], [Fin 2, Fin 0, Fin 1]].
              card (set (recs ! r)) = nat 2 \<and> set (recs ! r) \<subseteq> {0..<3} \<and>
              (\<forall>i \<in> set (recs ! r). \<forall>j < 3. j \<notin> set (recs ! r) \<longrightarrow>
                 [[Fin 1, Fin 3, Fin 3], [Fin 2, Fin 0, Fin 1]] ! r ! j
                   \<le> [[Fin 1, Fin 3, Fin 3], [Fin 2, Fin 0, Fin 1]] ! r ! i) \<and>
              (\<exists>full. mset full = mset [0..<3] \<and>
                 sorted (rev (map (\<lambda>i. [[Fin 1, Fin 3, Fin 3], [Fin 2, Fin 0, Fin 1]] ! r ! i) full)) \<and>
                 set (recs ! r) = set (take (nat 2) full))))"
proof -
  have m: "is_matrix [[Fin 1, Fin 3, Fin 3], [Fin 2, Fin 0, Fin 1]] 3"
    by (simp add: is_matrix_def)
  have ne: "[[Fin 1, Fin 3, Fin 3], [Fin 2, Fin 0, Fin 1]] \<noteq> []" by simp
  have n: "(1::int) \<le> 2" "(2::int) \<le> int 3" by simp_all
  show ?thesis
    by (intro conjI sel_stable_spec srt_stable_spec ne m n
        topn_exhaustive[OF sel_stable_spec srt_stable_spec ne m n])
qed

text \<open>
  Claim C4. Top-N cardinality and order: for every score matrix with at least one row
  and every \<open>n\<close> with \<open>1 \<le> n \<le> I\<close>, each row of the result of
  \<open>topn_recommendations\<close> has exactly \<open>n\<close> column indices, no index twice, each below
  \<open>I\<close>, and the scores at those indices, read left to right, never increase.
\<close>

theorem topn_cardinality_order:
  assumes sel: "argpartition_spec sel" and srt: "argsort_spec srt"
    and ne: "scores \<noteq> []" and m: "is_matrix scores I" and n: "1 \<le> n" "n \<le> int I"
  shows "\<exists>recs. topn_recommendations sel srt scores n = Inr recs \<and>
           length recs = length scores \<and>
           (\<forall>r < length scores.
              length (recs ! r) = nat n \<and> distinct (recs ! r) \<and>
              (\<forall>x \<in> set (recs ! r). x < I) \<and>
              (\<forall>p q. p \<le> q \<and> q < nat n \<longrightarrow>
                 scores ! r ! (recs ! r ! q) \<le> scores ! r ! (recs ! r ! p)))"
proof -
  let ?P = "\<lambda>a res. length res = nat n \<and> distinct res \<and> (\<forall>x \<in> set res. x < I) \<and>
              (\<forall>p q. p \<le> q \<and> q < nat n \<longrightarrow> a ! (res ! q) \<le> a ! (res ! p))"
  have "\<forall>a \<in> set scores. \<exists>res. topidx sel srt a n = Inr res \<and> ?P a res"
  proof
    fix a assume "a \<in> set scores"
    then have la: "length a = I" using m by (simp add: is_matrix_def list_all_iff)
    have n': "- int (length a) < n" "n \<le> int (length a)" using n la by simp_all
    from topidx_row[OF sel srt n'] n(1) la obtain res where
      ti: "topidx sel srt a n = Inr res" and lr: "length res = nat n" and
      dr: "distinct res" and sr: "set res \<subseteq> {0..<I}" and
      rs: "sorted (rev (map (\<lambda>i. a ! i) res))"
      by auto
    have "\<forall>p q. p \<le> q \<and> q < nat n \<longrightarrow> a ! (res ! q) \<le> a ! (res ! p)"
    proof (intro allI impI)
      fix p q assume pq: "p \<le> q \<and> q < nat n"
      then have "map (\<lambda>i. a ! i) res ! q \<le> map (\<lambda>i. a ! i) res ! p"
        using rs lr by (intro sorted_rev_nth_mono) simp_all
      then show "a ! (res ! q) \<le> a ! (res ! p)" using pq lr by simp
    qed
    moreover have "\<forall>x \<in> set res. x < I" using sr by auto
    ultimately show "\<exists>res. topidx sel srt a n = Inr res \<and> ?P a res"
      using ti lr dr by blast
  qed
  from map_err_Inr[of scores "\<lambda>row. topidx sel srt row n" ?P, OF this]
  show ?thesis using ne by (simp add: topn_recommendations_def)
qed

theorem topn_cardinality_order_witness:
  "argpartition_spec sel_stable \<and> argsort_spec srt_stable \<and>
   [[Fin 1, Fin 3, Fin 3], [NegInf, Fin 0, Fin 1]] \<noteq> [] \<and>
   is_matrix [[Fin 1, Fin 3, Fin 3], [NegInf, Fin 0, Fin 1]] 3 \<and> (1::int) \<le> 2 \<and> (2::int) \<le> int 3 \<and>
   (\<exists>recs. topn_recommendations sel_stable srt_stable
              [[Fin 1, Fin 3, Fin 3], [NegInf, Fin 0, Fin 1]] 2 = Inr recs \<and>
           length recs = length [[Fin 1, Fin 3, Fin 3], [NegInf, Fin 0, Fin 1]] \<and>
           (\<forall>r < length [[Fin 1, Fin 3, Fin 3], [NegInf, Fin 0, Fin 1]].
              length (recs ! r) = nat 2 \<and> distinct (recs ! r) \<and>
              (\<forall>x \<in> set (recs ! r). x < 3) \<and>
              (\<forall>p q. p \<le> q \<and> q < nat 2 \<longrightarrow>
                 [[Fin 1, Fin 3, Fin 3], [NegInf, Fin 0, Fin 1]] ! r ! (recs ! r ! q)
                   \<le> [[Fin 1, Fin 3, Fin 3], [NegInf, Fin 0, Fin 1]] ! r ! (recs ! r ! p))))"
proof -
  have m: "is_matrix [[Fin 1, Fin 3, Fin 3], [NegInf, Fin 0, Fin 1]] 3"
    by (simp add: is_matrix_def)
  have ne: "[[Fin 1, Fin 3, Fin 3], [NegInf, Fin 0, Fin 1]] \<noteq> []" by simp
  have n: "(1::int) \<le> 2" "(2::int) \<le> int 3" by simp_all
  show ?thesis
    by (intro conjI sel_stable_spec srt_stable_spec ne m n
        topn_cardinality_order[OF sel_stable_spec srt_stable_spec ne m n])
qed

text \<open>
  Claim C5 states that two selected columns of equal score come out in the order of
  their column indices. The code sorts with the default kinds of \<^verbatim>\<open>np.argpartition\<close>
  and \<^verbatim>\<open>np.argsort\<close>, which fix no order among equal scores: the row
  \<open>[2, 2, 1, 1]\<close> and \<open>topn = 2\<close> give \<open>[1, 0]\<close>, where columns 0 and 1 have the same
  score and column 1 comes first. The selection kernel of the statement meets the
  contract and leaves the two tied columns in that order.
\<close>

theorem tie_break_counterexample:
  "argpartition_spec sel_rev \<and> argsort_spec srt_stable \<and>
   topidx sel_rev srt_stable [Fin 2, Fin 2, Fin 1, Fin 1] 2 = Inr [1, 0] \<and>
   [Fin 2, Fin 2, Fin 1, Fin 1] ! 0 = [Fin 2, Fin 2, Fin 1, Fin 1] ! 1"
proof -
  have "topidx sel_rev srt_stable [Fin 2, Fin 2, Fin 1, Fin 1] 2 = Inr [1, 0]"
    by (simp add: topidx_def np_argpartition_def norm_kth_def sel_rev_def srt_stable_def
        py_slice_from_def np_take_def less_eq_score_def upt_conv_Cons)
  then show ?thesis using sel_rev_spec srt_stable_spec by simp
qed

text \<open>
  Claim C5 as amended: whenever \<open>topidx\<close> returns, of two returned columns with
  different scores the one with the higher score comes first; the order of returned
  columns with equal scores is not fixed.
\<close>

theorem order_up_to_ties:
  assumes sel: "argpartition_spec sel" and srt: "argsort_spec srt"
    and ti: "topidx sel srt a n = Inr res"
    and p: "p < length res" and q: "q < length res"
    and lt: "a ! (res ! q) < a ! (res ! p)"
  shows "p < q"
proof (rule ccontr)
  assume "\<not> p < q"
  then have qp: "q \<le> p" by simp
  have "a \<noteq> []"
    using topidx_empty[OF sel srt, of n] ti p by auto
  with topidx_Inr_cases[OF ti] have n: "- int (length a) < n" "n \<le> int (length a)"
    by simp_all
  from topidx_row[OF sel srt n] ti have "sorted (rev (map (\<lambda>i. a ! i) res))"
    by auto
  then have "map (\<lambda>i. a ! i) res ! p \<le> map (\<lambda>i. a ! i) res ! q"
    using qp p by (intro sorted_rev_nth_mono) simp_all
  then have "a ! (res ! p) \<le> a ! (res ! q)" using p q by simp
  with lt show False by simp
qed

theorem order_up_to_ties_witness:
  "argpartition_spec sel_stable \<and> argsort_spec srt_stable \<and>
   topidx sel_stable srt_stable [Fin 5, Fin 7, Fin 1] 2 = Inr [1, 0] \<and>
   (0::nat) < length [1, 0 :: nat] \<and> (1::nat) < length [1, 0 :: nat] \<and>
   [Fin 5, Fin 7, Fin 1] ! ([1, 0] ! 1) < [Fin 5, Fin 7, Fin 1] ! ([1, 0] ! 0) \<and>
   (0::nat) < 1"
proof -
  have ti: "topidx sel_stable srt_stable [Fin 5, Fin 7, Fin 1] 2 = Inr [1, 0]"
    by (simp add: topidx_def np_argpartition_def norm_kth_def sel_stable_def srt_stable_def
        py_slice_from_def np_take_def less_eq_score_def upt_conv_Cons)
  have p: "(0::nat) < length [1, 0 :: nat]" and q: "(1::nat) < length [1, 0 :: nat]"
    by simp_all
  have lt: "[Fin 5, Fin 7, Fin 1] ! ([1, 0] ! 1) < [Fin 5, Fin 7, Fin 1] ! ([1, 0] ! 0)"
    by (simp add: less_score_def)
  show ?thesis
    by (intro conjI sel_stable_spec srt_stable_spec ti p q lt
        order_up_to_ties[OF sel_stable_spec srt_stable_spec ti p q lt])
qed

text \<open>
  Claim C6 states that no \<open>n \<le> 0\<close> and no \<open>n \<ge> I\<close> makes the selector raise. On
  a row of one score, \<open>topn = 2\<close> makes \<^verbatim>\<open>np.argpartition\<close> raise \<^verbatim>\<open>ValueError\<close>:
  \<open>kth = -2\<close> is out of bounds.
\<close>

theorem degenerate_n_counterexample:
  "topidx sel_stable srt_stable [Fin 1] 2 = Inl ValueError"
  by (simp add: topidx_def np_argpartition_def norm_kth_def)

text \<open>
  Claim C6 as amended: on a row of \<open>I \<ge> 1\<close> scores, \<open>topidx\<close> returns exactly when
  \<open>-I < n \<le> I\<close> and raises \<^verbatim>\<open>ValueError\<close> otherwise; when it returns, it returns
  the \<open>n\<close> highest columns when \<open>n\<close> is positive and the \<open>I + n\<close> highest columns
  otherwise (distinct columns, none left out scoring higher than one returned), in
  descending score order; for \<open>n = I\<close> and for \<open>n = 0\<close> these are all \<open>I\<close> columns.
\<close>

theorem degenerate_n:
  assumes sel: "argpartition_spec sel" and srt: "argsort_spec srt" and ne: "a \<noteq> []"
  shows "(if - int (length a) < n \<and> n \<le> int (length a)
          then \<exists>res. topidx sel srt a n = Inr res \<and>
                 length res = (if 0 < n then nat n else length a - nat (- n)) \<and>
                 distinct res \<and> set res \<subseteq> {0..<length a} \<and>
                 sorted (rev (map (\<lambda>i. a ! i) res)) \<and>
                 (\<forall>i \<in> set res. \<forall>j < length a. j \<notin> set res \<longrightarrow> a ! j \<le> a ! i)
          else topidx sel srt a n = Inl ValueError) \<and>
         (n = int (length a) \<or> n = 0 \<longrightarrow>
            (\<exists>res. topidx sel srt a n = Inr res \<and> mset res = mset [0..<length a] \<and>
               sorted (rev (map (\<lambda>i. a ! i) res))))"
proof -
  have inr: "\<exists>res. topidx sel srt a n = Inr res \<and>
                 length res = (if 0 < n then nat n else length a - nat (- n)) \<and>
                 distinct res \<and> set res \<subseteq> {0..<length a} \<and>
                 sorted (rev (map (\<lambda>i. a ! i) res)) \<and>
                 (\<forall>i \<in> set res. \<forall>j < length a. j \<notin> set res \<longrightarrow> a ! j \<le> a ! i)"
    if "- int (length a) < n" "n \<le> int (length a)"
    using topidx_row[OF sel srt that] by blast
  have inl: "topidx sel srt a n = Inl ValueError"
    if "\<not> (- int (length a) < n \<and> n \<le> int (length a))"
  proof -
    have "np_argpartition sel a (- n) = Inl ValueError"
      using that ne by (simp add: np_argpartition_Inl_iff)
    then show ?thesis by (simp add: topidx_def)
  qed
  have full: "\<exists>res. topidx sel srt a n = Inr res \<and> mset res = mset [0..<length a] \<and>
               sorted (rev (map (\<lambda>i. a ! i) res))"
    if "n = int (length a) \<or> n = 0"
  proof -
    have v: "- int (length a) < n" "n \<le> int (length a)" using that ne by auto
    from inr[OF v] obtain res where
      ti: "topidx sel srt a n = Inr res" and
      lr: "length res = (if 0 < n then nat n else length a - nat (- n))" and
      dr: "distinct res" and sr: "set res \<subseteq> {0..<length a}" and
      rs: "sorted (rev (map (\<lambda>i. a ! i) res))" by blast
    have "length res = length a" using lr that ne by auto
    then have "card (set res) = card {0..<length a}" using dr by (simp add: distinct_card)
    then have "set res = {0..<length a}" using sr by (simp add: card_subset_eq)
    then have "mset res = mset [0..<length a]"
      using dr by (metis distinct_upt set_eq_iff_mset_eq_distinct set_upt)
    with ti rs show ?thesis by blast
  qed
  show ?thesis using inr inl full by simp
qed

theorem degenerate_n_witness:
  "argpartition_spec sel_stable \<and> argsort_spec srt_stable \<and> [Fin 3, Fin 1, Fin 2] \<noteq> [] \<and>
   topidx sel_stable srt_stable [Fin 3, Fin 1, Fin 2] 4 = Inl ValueError \<and>
   topidx sel_stable srt_stable [Fin 3, Fin 1, Fin 2] (- 3) = Inl ValueError \<and>
   (\<exists>res. topidx sel_stable srt_stable [Fin 3, Fin 1, Fin 2] 3 = Inr res \<and>
       mset res = mset [0..<length [Fin 3, Fin 1, Fin 2]] \<and>
       sorted (rev (map (\<lambda>i. [Fin 3, Fin 1, Fin 2] ! i) res))) \<and>
   (\<exists>res. topidx sel_stable srt_stable [Fin 3, Fin 1, Fin 2] 0 = Inr res \<and>
       mset res = mset [0..<length [Fin 3, Fin 1, Fin 2]] \<and>
       sorted (rev (map (\<lambda>i. [Fin 3, Fin 1, Fin 2] ! i) res))) \<and>
   (\<exists>res. topidx sel_stable srt_stable [Fin 3, Fin 1, Fin 2] (- 1) = Inr res \<and>
       length res = 2 \<and> distinct res \<and> set res \<subseteq> {0..<3} \<and>
       sorted (rev (map (\<lambda>i. [Fin 3, Fin 1, Fin 2] ! i) res)) \<and>
       (\<forall>i \<in> set res. \<forall>j < 3. j \<notin> set res \<longrightarrow>
          [Fin 3, Fin 1, Fin 2] ! j \<le> [Fin 3, Fin 1, Fin 2] ! i))"
proof -
  have ne: "[Fin 3, Fin 1, Fin 2] \<noteq> []" by simp
  note d = degenerate_n[OF sel_stable_spec srt_stable_spec ne]
  have e1: "topidx sel_stable srt_stable [Fin 3, Fin 1, Fin 2] 4 = Inl ValueError"
    using d[of 4] by simp
  have e2: "topidx sel_stable srt_stable [Fin 3, Fin 1, Fin 2] (- 3) = Inl ValueError"
    using d[of "- 3"] by simp
  have f1: "\<exists>res. topidx sel_stable srt_stable [Fin 3, Fin 1, Fin 2] 3 = Inr res \<and>
       mset res = mset [0..<length [Fin 3, Fin 1, Fin 2]] \<and>
       sorted (rev (map (\<lambda>i. [Fin 3, Fin 1, Fin 2] ! i) res))"
    by (rule d[of 3, THEN conjunct2, THEN mp]) simp
  have f2: "\<exists>res. topidx sel_stable srt_stable [Fin 3, Fin 1, Fin 2] 0 = Inr res \<and>
       mset res = mset [0..<length [Fin 3, Fin 1, Fin 2]] \<and>
       sorted (rev (map (\<lambda>i. [Fin 3, Fin 1, Fin 2] ! i) res))"
    by (rule d[of 0, THEN conjunct2, THEN mp]) simp
  have f3: "\<exists>res. topidx sel_stable srt_stable [Fin 3, Fin 1, Fin 2] (- 1) = Inr res \<and>
       length res = 2 \<and> distinct res \<and> set res \<subseteq> {0..<3} \<and>
       sorted (rev (map (\<lambda>i. [Fin 3, Fin 1, Fin 2] ! i) res)) \<and>
       (\<forall>i \<in> set res. \<forall>j < 3. j \<notin> set res \<longrightarrow>
          [Fin 3, Fin 1, Fin 2] ! j \<le> [Fin 3, Fin 1, Fin 2] ! i)"
    using d[of "- 1", THEN conjunct1] by (simp add: numeral_2_eq_2 numeral_3_eq_3)
  show ?thesis
    by (intro conjI sel_stable_spec srt_stable_spec ne e1 e2 f1 f2 f3)
qed

text \<open>
  Claim C7 states that \<open>model_evaluate\<close> fails with an assertion error exactly when
  the row count of the recommendation matrix differs from the number of holdout
  records, and returns the three metrics when they are equal. With equal counts and
  \<open>n_items = 0\<close> the coverage division raises \<^verbatim>\<open>ZeroDivisionError\<close> instead.
\<close>

theorem evaluate_precondition_counterexample:
  "length [[0 :: nat]] = length [0 :: nat] \<and>
   model_evaluate [[0 :: nat]] [0] 0 1 = Inl ZeroDivisionError"
  by (simp add: model_evaluate_def Let_def)

text \<open>
  Claim C7 as amended: \<open>model_evaluate\<close> fails with \<^verbatim>\<open>AssertionError\<close> if and only
  if the row count of the recommendation matrix differs from the number of holdout
  records; when they are equal it returns the three metrics if \<open>n_items\<close> is not zero
  and raises \<^verbatim>\<open>ZeroDivisionError\<close> if it is.
\<close>

theorem evaluate_precondition:
  "(model_evaluate rec hold n_items topn = Inl AssertionError
      \<longleftrightarrow> length rec \<noteq> length hold) \<and>
   (length rec = length hold \<longrightarrow>
      (if n_items = 0 then model_evaluate rec hold n_items topn = Inl ZeroDivisionError
       else \<exists>hr mrr cov. model_evaluate rec hold n_items topn = Inr (hr, mrr, cov)))"
  by (simp add: model_evaluate_def Let_def)

theorem evaluate_precondition_witness:
  "model_evaluate [[1, 2], [2, 0 :: nat]] [1] 4 2 = Inl AssertionError \<and>
   (\<exists>hr mrr cov. model_evaluate [[1, 2], [2, 0 :: nat]] [1, 0] 4 2 = Inr (hr, mrr, cov)) \<and>
   model_evaluate [[1, 2], [2, 0 :: nat]] [1, 0] 0 2 = Inl ZeroDivisionError"
  using evaluate_precondition[of "[[1, 2], [2, 0 :: nat]]" "[1]" 4 2]
    evaluate_precondition[of "[[1, 2], [2, 0 :: nat]]" "[1, 0]" 4 2]
    evaluate_precondition[of "[[1, 2], [2, 0 :: nat]]" "[1, 0]" 0 2]
  by simp

text \<open>
  Claim C8 states \<open>0 \<le> mrr \<le> hr\<close> for every recommendation matrix. The reciprocal
  ranks of all hits of a row are summed, so a row that lists the held-out item twice
  counts twice: for the matrix \<open>[[1, 1]]\<close>, the truth \<open>[1]\<close> and \<open>topn = 2\<close> the
  result is \<open>hr = 1\<close> and \<open>mrr = 1.5\<close>.
\<close>

theorem mrr_bound_counterexample:
  "length [[1, 1 :: nat]] = length [1 :: nat] \<and> (1::int) \<le> 2 \<and>
   model_evaluate [[1, 1 :: nat]] [1] 4 2 = Inr (Val 1, Val (3 / 2), Val (1 / 4)) \<and>
   \<not> ((3 / 2 :: real) \<le> 1)"
  by (simp add: model_evaluate_def hits_mask_def where_cols_def py_slice_to_def
      upt_conv_Cons Let_def)

text \<open>
  Claim C8 as amended: for every recommendation matrix with at least one row, a holdout
  of equal row count and \<open>n_items\<close> not zero, if no row lists its user's held-out item
  more than once among its first \<open>topn\<close> columns, then \<open>model_evaluate\<close> returns
  numbers \<open>hr\<close> and \<open>mrr\<close> with \<open>0 \<le> mrr \<le> hr\<close>.
\<close>

theorem mrr_bound:
  assumes len: "length rec = length hold" and ne: "rec \<noteq> []" and ni: "n_items \<noteq> 0"
    and once: "\<forall>r < length rec. count_list (py_slice_to topn (rec ! r)) (hold ! r) \<le> 1"
  shows "\<exists>hr mrr cov. model_evaluate rec hold n_items topn = Inr (Val hr, Val mrr, cov) \<and>
           0 \<le> mrr \<and> mrr \<le> hr"
proof -
  define hits where "hits = hits_mask rec hold topn"
  define s where "s = sum_list (map (\<lambda>r. 1 / r) (map (\<lambda>k. real k + 1) (where_cols hits)))"
  define h where "h = real (length (filter (list_ex (\<lambda>b. b)) hits))"
  have u: "0 < real (length rec)" using ne by simp
  have "0 \<le> s" unfolding s_def by (rule reciprocal_rank_nonneg)
  moreover have "s \<le> h"
    unfolding s_def h_def hits_def
    by (rule reciprocal_rank_bound) (rule hits_mask_rows[OF len once])
  ultimately have "0 \<le> s / real (length rec)" "s / real (length rec) \<le> h / real (length rec)"
    using u by (simp_all add: divide_right_mono)
  moreover have "model_evaluate rec hold n_items topn
      = Inr (Val (h / real (length rec)), Val (s / real (length rec)),
             Val (real (length (remdups (concat rec))) / real_of_int n_items))"
    using len ne ni by (auto simp: model_evaluate_def Let_def s_def h_def hits_def)
  ultimately show ?thesis by blast
qed

theorem mrr_bound_witness:
  "length [[1, 2], [2, 0 :: nat]] = length [1, 0 :: nat] \<and> [[1, 2], [2, 0 :: nat]] \<noteq> [] \<and>
   (4 :: int) \<noteq> 0 \<and>
   count_list (py_slice_to 2 [1, 2 :: nat]) 1 \<le> 1 \<and>
   count_list (py_slice_to 2 [2, 0 :: nat]) 0 \<le> 1 \<and>
   (\<exists>hr mrr cov. model_evaluate [[1, 2], [2, 0 :: nat]] [1, 0] 4 2 = Inr (Val hr, Val mrr, cov) \<and>
           0 \<le> mrr \<and> mrr \<le> hr)"
proof -
  have len: "length [[1, 2], [2, 0 :: nat]] = length [1, 0 :: nat]" by simp
  have ne: "[[1, 2], [2, 0 :: nat]] \<noteq> []" by simp
  have ni: "(4 :: int) \<noteq> 0" by simp
  have once: "\<forall>r < length [[1, 2], [2, 0 :: nat]].
      count_list (py_slice_to 2 ([[1, 2], [2, 0 :: nat]] ! r)) ([1, 0] ! r) \<le> 1"
    by (auto simp: py_slice_to_def less_Suc_eq)
  have c0: "count_list (py_slice_to 2 [1, 2 :: nat]) 1 \<le> 1"
    and c1: "count_list (py_slice_to 2 [2, 0 :: nat]) 0 \<le> 1"
    by (simp_all add: py_slice_to_def)
  show ?thesis
    by (intro conjI len ne ni c0 c1 mrr_bound[OF len ne ni once])
qed

text \<open>
  Claim C9. Coverage definition and bound: when \<open>model_evaluate\<close> returns (equal row
  counts, \<open>n_items\<close> not zero), the coverage is the number of distinct item indices
  anywhere in the recommendation matrix, all columns and whatever \<open>topn\<close> is, divided by
  \<open>n_items\<close>; and it lies between 0 and 1 whenever every recommended index lies in
  \<open>[0, n_items)\<close>.
\<close>

theorem coverage_definition_bound:
  fixes rec :: "int list list"
  assumes len: "length rec = length hold" and ni: "n_items \<noteq> 0"
  shows "\<exists>hr mrr cov. model_evaluate rec hold n_items topn = Inr (hr, mrr, Val cov) \<and>
           cov = real (card (\<Union>row \<in> set rec. set row)) / real_of_int n_items \<and>
           ((\<forall>row \<in> set rec. \<forall>x \<in> set row. 0 \<le> x \<and> x < n_items) \<longrightarrow> 0 \<le> cov \<and> cov \<le> 1)"
proof -
  define items where "items = (\<Union>row \<in> set rec. set row)"
  define cov where "cov = real (card items) / real_of_int n_items"
  have c: "length (remdups (concat rec)) = card items"
    by (simp add: length_remdups_card_conv items_def)
  have ev: "\<exists>hr mrr. model_evaluate rec hold n_items topn = Inr (hr, mrr, Val cov)"
    using len ni by (simp add: model_evaluate_def Let_def c cov_def)
  have "0 \<le> cov \<and> cov \<le> 1" if "\<forall>row \<in> set rec. \<forall>x \<in> set row. 0 \<le> x \<and> x < n_items"
  proof (cases "items = {}")
    case True
    then show ?thesis by (simp add: cov_def)
  next
    case False
    have sub: "items \<subseteq> {0..<n_items}" using that by (auto simp: items_def)
    with False have pos: "0 < n_items" by auto
    have "card items \<le> card {0..<n_items}"
      using sub by (intro card_mono) simp_all
    then have "int (card items) \<le> n_items" using pos by simp
    then have "real (card items) \<le> real_of_int n_items"
      by (metis of_int_le_iff of_int_of_nat_eq)
    then show ?thesis using pos by (simp add: cov_def)
  qed
  with ev show ?thesis unfolding cov_def items_def by blast
qed

theorem coverage_definition_bound_witness:
  "length [[1, 2], [2, 0 :: int]] = length [1, 0 :: int] \<and> (4 :: int) \<noteq> 0 \<and>
   list_all (list_all (\<lambda>x. 0 \<le> x \<and> x < 4)) [[1, 2], [2, 0 :: int]] \<and>
   (\<exists>hr mrr cov. model_evaluate [[1, 2], [2, 0 :: int]] [1, 0] 4 2 = Inr (hr, mrr, Val cov) \<and>
      cov = real (card (\<Union>row \<in> set [[1, 2], [2, 0 :: int]]. set row)) / real_of_int 4 \<and>
      0 \<le> cov \<and> cov \<le> 1)"
proof -
  have len: "length [[1, 2], [2, 0 :: int]] = length [1, 0 :: int]" by simp
  have ni: "(4 :: int) \<noteq> 0" by simp
  have rng: "\<forall>row \<in> set [[1, 2], [2, 0 :: int]]. \<forall>x \<in> set row. 0 \<le> x \<and> x < 4" by simp
  from coverage_definition_bound[OF len ni, of 2] rng
  have "\<exists>hr mrr cov. model_evaluate [[1, 2], [2, 0 :: int]] [1, 0] 4 2 = Inr (hr, mrr, Val cov) \<and>
      cov = real (card (\<Union>row \<in> set [[1, 2], [2, 0 :: int]]. set row)) / real_of_int 4 \<and>
      0 \<le> cov \<and> cov \<le> 1"
    by blast
  moreover have "list_all (list_all (\<lambda>x. 0 \<le> x \<and> x < 4)) [[1, 2], [2, 0 :: int]]"
    by simp
  ultimately show ?thesis using len ni by blast
qed

text \<open>
  Claim C10. Atomicity on a bounds error: when some pair of the interaction table
  falls outside the matrix, \<open>downvote_seen_items\<close> raises at the index flattening,
  before \<^verbatim>\<open>np.put\<close> writes anything, and the matrix is unchanged; no other error
  occurs, so whenever the call raises, the matrix is the one it was given.
\<close>

theorem suppression_atomic:
  assumes m: "is_matrix scores I"
  shows "(if \<forall>(u, i) \<in> set data. user_rank data u < length scores \<and> 0 \<le> i \<and> i < int I
          then \<exists>scores'. downvote_seen_items scores data = (Inr (), scores')
          else downvote_seen_items scores data = (Inl ValueError, scores)) \<and>
         (\<forall>e s. downvote_seen_items scores data = (Inl e, s) \<longrightarrow> s = scores)"
proof (cases "\<forall>(u, i) \<in> set data. user_rank data u < length scores \<and> 0 \<le> i \<and> i < int I")
  case True
  from downvote_in_bounds[OF m True] obtain scores' where
    "downvote_seen_items scores data = (Inr (), scores')" by blast
  then show ?thesis using True by auto
next
  case False
  from downvote_out_of_bounds[OF m False] show ?thesis using False by auto
qed

theorem suppression_atomic_witness:
  "is_matrix [[Fin 1, Fin 2], [Fin 3, Fin 4]] 2 \<and>
   downvote_seen_items [[Fin 1, Fin 2], [Fin 3, Fin 4]] [(10 :: int, 1), (7, 0), (10, 2)]
     = (Inl ValueError, [[Fin 1, Fin 2], [Fin 3, Fin 4]]) \<and>
   (\<exists>scores'. downvote_seen_items [[Fin 1, Fin 2], [Fin 3, Fin 4]] [(10 :: int, 1), (7, 0)]
     = (Inr (), scores'))"
proof -
  have m: "is_matrix [[Fin 1, Fin 2], [Fin 3, Fin 4]] 2"
    by (simp add: is_matrix_def)
  have e: "downvote_seen_items [[Fin 1, Fin 2], [Fin 3, Fin 4]] [(10 :: int, 1), (7, 0), (10, 2)]
     = (Inl ValueError, [[Fin 1, Fin 2], [Fin 3, Fin 4]])"
    using suppression_atomic[OF m, of "[(10 :: int, 1), (7, 0), (10, 2)]", THEN conjunct1]
    by (simp add: user_rank_filter)
  have r: "\<exists>scores'. downvote_seen_items [[Fin 1, Fin 2], [Fin 3, Fin 4]] [(10 :: int, 1), (7, 0)]
     = (Inr (), scores')"
    using suppression_atomic[OF m, of "[(10 :: int, 1), (7, 0)]", THEN conjunct1]
    by (simp add: user_rank_filter)
  show ?thesis by (intro conjI m e r)
qed

end
